theory Spec2Isabelle
  imports Complex_Main
begin

section \<open>Strings of the dictation script\<close>

text \<open>
  A JavaScript string is a sequence of UTF-16 code units; \<open>s.length\<close>, \<open>s[i]\<close> and the
  regular expressions of \<^verbatim>\<open>dictation.js\<close> (none has the \<open>u\<close> flag) all work on code
  units, so a string is a list of code-unit numbers here. \<open>js\<close> writes an ASCII literal.

  \<open>String.prototype.toLowerCase\<close> is a platform built-in driven by the Unicode case
  tables; every function that calls it takes it as the parameter \<open>lc\<close>.
\<close>

type_synonym jsstring = "nat list"

definition js :: "string \<Rightarrow> jsstring" where
  "js s = map of_char s"

text \<open>What \<open>\s\<close> matches and \<open>trim\<close> strips: the white space and line terminator code units.\<close>

definition is_ws :: "nat \<Rightarrow> bool" where
  "is_ws c \<longleftrightarrow>
     c \<in> set [9, 10, 11, 12, 13, 32, 160, 5760, 8232, 8233, 8239, 8287, 12288, 65279]
     \<or> (8192 \<le> c \<and> c \<le> 8202)"

text \<open>The character class \<^verbatim>\<open>[.,?!;:'"...()[\]{}\-]\<close> with the ellipsis and both dashes.\<close>

definition is_punct :: "nat \<Rightarrow> bool" where
  "is_punct c \<longleftrightarrow>
     c \<in> set [46, 44, 63, 33, 59, 58, 39, 34, 8230, 40, 41, 91, 93, 123, 125, 45, 8211, 8212]"

definition trim :: "jsstring \<Rightarrow> jsstring" where
  "trim s = rev (dropWhile is_ws (rev (dropWhile is_ws s)))"

definition strip_punct :: "jsstring \<Rightarrow> jsstring" where
  "strip_punct s = filter (\<lambda>c. \<not> is_punct c) s"

text \<open>\<^verbatim>\<open>.replace(/\s+/g, ' ')\<close>: every maximal run of white space becomes one space.\<close>

function collapse_ws :: "jsstring \<Rightarrow> jsstring" where
  "collapse_ws [] = []"
| "collapse_ws (c # cs) =
     (if is_ws c then 32 # collapse_ws (dropWhile is_ws cs) else c # collapse_ws cs)"
  by pat_completeness auto
termination
  by (relation "measure length") (auto simp: length_dropWhile_le less_Suc_eq_le)

text \<open>
  \<^verbatim>\<open>.split(/\s+/)\<close>: the pieces between maximal runs of white space; a leading or a trailing
  run leaves an empty piece, and the empty string gives one empty piece.
\<close>

lemma split_ws_shorter:
  assumes "dropWhile (\<lambda>c. \<not> is_ws c) s \<noteq> []"
  shows "length (dropWhile is_ws (dropWhile (\<lambda>c. \<not> is_ws c) s)) < length s"
proof -
  obtain c cs where r: "dropWhile (\<lambda>c. \<not> is_ws c) s = c # cs"
    using assms by (cases "dropWhile (\<lambda>c. \<not> is_ws c) s") auto
  have "is_ws c"
    using hd_dropWhile [OF assms] r by simp
  then have "length (dropWhile is_ws (c # cs)) \<le> length cs"
    by (simp add: length_dropWhile_le)
  moreover have "length (c # cs) \<le> length s"
    using length_dropWhile_le [of "\<lambda>c. \<not> is_ws c" s] r by simp
  ultimately show ?thesis
    using r by simp
qed

function split_ws :: "jsstring \<Rightarrow> jsstring list" where
  "split_ws s =
     (let piece = takeWhile (\<lambda>c. \<not> is_ws c) s;
          rest = dropWhile (\<lambda>c. \<not> is_ws c) s
      in if rest = [] then [piece] else piece # split_ws (dropWhile is_ws rest))"
  by pat_completeness auto
termination
  by (relation "measure length") (auto simp: split_ws_shorter)

declare split_ws.simps [simp del]

text \<open>\<^verbatim>\<open>text.split(/\s+/).filter(w => w)\<close>: the non-empty pieces.\<close>

definition words_of :: "jsstring \<Rightarrow> jsstring list" where
  "words_of s = filter (\<lambda>w. w \<noteq> []) (split_ws s)"

text \<open>
  \<open>normalizeWord\<close> and \<open>normalizeForCompare\<close>. Their arguments are strings wherever the
  script calls them, so \<open>(w || '')\<close> is \<open>w\<close>.
\<close>

definition normalizeWord :: "(jsstring \<Rightarrow> jsstring) \<Rightarrow> jsstring \<Rightarrow> jsstring" where
  "normalizeWord lc w = trim (strip_punct (lc w))"

definition normalizeForCompare :: "(jsstring \<Rightarrow> jsstring) \<Rightarrow> jsstring \<Rightarrow> jsstring" where
  "normalizeForCompare lc s = trim (collapse_ws (strip_punct (lc s)))"

text \<open>A lower-casing of the ASCII letters, to run the functions on ASCII examples.\<close>

definition ascii_lower :: "jsstring \<Rightarrow> jsstring" where
  "ascii_lower s = map (\<lambda>c. if 65 \<le> c \<and> c \<le> 90 then c + 32 else c) s"

section \<open>Levenshtein distance\<close>

text \<open>Two-dimensional tables: \<open>t[i][j] = v\<close> is \<open>set2 t i j v\<close>.\<close>

definition set2 :: "'x list list \<Rightarrow> nat \<Rightarrow> nat \<Rightarrow> 'x \<Rightarrow> 'x list list" where
  "set2 t i j v = t[i := (t ! i)[j := v]]"

text \<open>The cell update of the main double loop of \<open>levenshtein\<close>.\<close>

definition lev_cell :: "'a list \<Rightarrow> 'a list \<Rightarrow> nat list list \<Rightarrow> nat \<Rightarrow> nat \<Rightarrow> nat" where
  "lev_cell a b dp i j =
     (if a ! (i - 1) = b ! (j - 1) then dp ! (i - 1) ! (j - 1)
      else 1 + min (dp ! (i - 1) ! (j - 1)) (min (dp ! (i - 1) ! j) (dp ! i ! (j - 1))))"

definition lev_table :: "'a list \<Rightarrow> 'a list \<Rightarrow> nat list list" where
  "lev_table a b =
     (let m = length a; n = length b;
          dp0 = replicate (m + 1) (replicate (n + 1) 0);
          dp1 = fold (\<lambda>i dp. set2 dp i 0 i) [0..<m + 1] dp0;
          dp2 = fold (\<lambda>j dp. set2 dp 0 j j) [0..<n + 1] dp1
      in fold (\<lambda>i dp. fold (\<lambda>j dp. set2 dp i j (lev_cell a b dp i j)) [1..<n + 1] dp)
           [1..<m + 1] dp2)"

definition levenshtein :: "'a list \<Rightarrow> 'a list \<Rightarrow> nat" where
  "levenshtein a b =
     (let m = length a; n = length b
      in if m = 0 then n
         else if n = 0 then m
         else lev_table a b ! m ! n)"

section \<open>Word classification and alignment\<close>

text \<open>The strings \<open>'exact'\<close>, \<open>'near'\<close>, \<open>'wrong'\<close>, \<open>'missing'\<close> and \<open>'extra'\<close>.\<close>

datatype tag = Exact | Near | Wrong | Missing | Extra

definition wordMatchType :: "(jsstring \<Rightarrow> jsstring) \<Rightarrow> jsstring \<Rightarrow> jsstring \<Rightarrow> tag" where
  "wordMatchType lc userWord correctWord =
     (let u = normalizeWord lc userWord;
          c = normalizeWord lc correctWord
      in if u = [] \<or> c = [] then Wrong
         else if u = c then Exact
         else let threshold = (if length c \<le> 3 then 0 else if length c \<le> 5 then 1 else 2 :: nat)
              in if threshold = 0 then Wrong
                 else if levenshtein u c \<le> threshold then Near else Wrong)"

text \<open>An alignment item; \<open>null\<close> is \<open>None\<close>.\<close>

record item =
  type :: tag
  userWord :: "jsstring option"
  correctWord :: "jsstring option"

definition mt_table ::
  "(jsstring \<Rightarrow> jsstring) \<Rightarrow> jsstring list \<Rightarrow> jsstring list \<Rightarrow> tag list list" where
  "mt_table lc userWords correctWords =
     (let m = length userWords; n = length correctWords
      in fold (\<lambda>i mt. fold (\<lambda>j mt. set2 mt i j (wordMatchType lc (userWords ! i) (correctWords ! j)))
                 [0..<n] mt)
           [0..<m] (replicate m (replicate n Wrong)))"

definition lcs_cell :: "tag list list \<Rightarrow> nat list list \<Rightarrow> nat \<Rightarrow> nat \<Rightarrow> nat" where
  "lcs_cell mt dp i j =
     (if mt ! (i - 1) ! (j - 1) \<noteq> Wrong then dp ! (i - 1) ! (j - 1) + 1
      else max (dp ! (i - 1) ! j) (dp ! i ! (j - 1)))"

definition lcs_table :: "tag list list \<Rightarrow> nat \<Rightarrow> nat \<Rightarrow> nat list list" where
  "lcs_table mt m n =
     fold (\<lambda>i dp. fold (\<lambda>j dp. set2 dp i j (lcs_cell mt dp i j)) [1..<n + 1] dp)
       [1..<m + 1] (replicate (m + 1) (replicate (n + 1) 0))"

text \<open>
  One turn of the backtrack loop at \<open>(i, j)\<close>: the item put in front of \<open>result\<close> and the
  new \<open>(i, j)\<close>. \<open>via_match\<close> is the condition of the first branch.
\<close>

definition via_match :: "tag list list \<Rightarrow> nat list list \<Rightarrow> nat \<Rightarrow> nat \<Rightarrow> bool" where
  "via_match mt dp i j \<longleftrightarrow>
     i > 0 \<and> j > 0 \<and> mt ! (i - 1) ! (j - 1) \<noteq> Wrong \<and> dp ! i ! j = dp ! (i - 1) ! (j - 1) + 1"

definition bt_step ::
  "jsstring list \<Rightarrow> jsstring list \<Rightarrow> tag list list \<Rightarrow> nat list list \<Rightarrow> nat \<Rightarrow> nat
     \<Rightarrow> item \<times> nat \<times> nat" where
  "bt_step userWords correctWords mt dp i j =
     (if via_match mt dp i j then
        (\<lparr>type = mt ! (i - 1) ! (j - 1), userWord = Some (userWords ! (i - 1)),
          correctWord = Some (correctWords ! (j - 1))\<rparr>, i - 1, j - 1)
      else if j > 0 \<and> (i = 0 \<or> dp ! i ! (j - 1) \<ge> dp ! (i - 1) ! j) then
        (\<lparr>type = Missing, userWord = None, correctWord = Some (correctWords ! (j - 1))\<rparr>, i, j - 1)
      else
        (\<lparr>type = Extra, userWord = Some (userWords ! (i - 1)), correctWord = None\<rparr>, i - 1, j))"

lemma bt_step_decreases:
  assumes "i > 0 \<or> j > 0" and "bt_step uw cw mt dp i j = (it, i', j')"
  shows "i' + j' < i + j"
  using assms by (auto simp: bt_step_def via_match_def split: if_splits)

function backtrack ::
  "jsstring list \<Rightarrow> jsstring list \<Rightarrow> tag list list \<Rightarrow> nat list list \<Rightarrow> nat \<Rightarrow> nat
     \<Rightarrow> item list \<Rightarrow> item list" where
  "backtrack userWords correctWords mt dp i j result =
     (if i > 0 \<or> j > 0 then
        (case bt_step userWords correctWords mt dp i j of
           (it, i', j') \<Rightarrow> backtrack userWords correctWords mt dp i' j' (it # result))
      else result)"
  by pat_completeness auto
termination
  by (relation "measure (\<lambda>(uw, cw, mt, dp, i, j, r). i + j)")
    (auto intro: bt_step_decreases [OF _ sym])

declare backtrack.simps [simp del]

definition lcsAlign ::
  "(jsstring \<Rightarrow> jsstring) \<Rightarrow> jsstring list \<Rightarrow> jsstring list \<Rightarrow> item list" where
  "lcsAlign lc userWords correctWords =
     (let m = length userWords; n = length correctWords;
          mt = mt_table lc userWords correctWords;
          dp = lcs_table mt m n
      in backtrack userWords correctWords mt dp m n [])"

section \<open>The dictation session\<close>

text \<open>
  A segment as the loader builds it (its \<open>words\<close> field is carried along unread and
  left out). Times are seconds.
\<close>

record segment =
  start_time :: rat
  end_time :: rat
  correct_text :: jsstring
  hint :: jsstring
  order :: nat

text \<open>What \<open>feedbackContent.innerHTML\<close> is set to, by its content.\<close>

datatype feedback =
    NoFeedback
  | EnterAnAnswer
  | ExactlyCorrect
  | NearlyCorrect nat
  | Incorrect nat nat
  | Revealed

text \<open>
  The fields of \<open>DictationMode\<close> and the state of the page elements its methods write.
  \<open>btnReveal\<close> is \<open>None\<close> when the page has no reveal button (every use is guarded by
  \<^verbatim>\<open>if (this.elements.btnReveal)\<close>), and otherwise holds whether the button is hidden.
  The play button and the visualizer are playback decoration and are left out.
\<close>

record session =
  segments :: "segment list"
  currentIndex :: nat
  isChecked :: bool
  correctCount :: nat
  attempts :: nat
  userInput :: jsstring
  inputDisabled :: bool
  btnCheckHidden :: bool
  btnNextHidden :: bool
  btnReveal :: "bool option"
  feedbackHidden :: bool
  feedbackContent :: feedback
  summaryShown :: bool

definition MAX_ATTEMPTS :: nat where
  "MAX_ATTEMPTS = 3"

text \<open>
  Reading a property of \<open>undefined\<close> throws. A method that throws returns the error
  with the state as it is at the throw: what it assigned before stays assigned.
\<close>

datatype jserror = TypeError

type_synonym outcome = "(jserror \<times> session) + session"

text \<open>
  The constructor: \<open>opts.initialIndex\<close> is an integer or absent (the page loader passes
  \<^verbatim>\<open>parseInt(...) || 0\<close>); the elements come as they are on the page.
\<close>

definition initial_index :: "int option \<Rightarrow> nat \<Rightarrow> int" where
  "initial_index initialIndex len =
     max 0 (min (case initialIndex of None \<Rightarrow> 0 | Some v \<Rightarrow> if v = 0 then 0 else v)
                (max 0 (int len - 1)))"

definition DictationMode :: "segment list \<Rightarrow> session \<Rightarrow> int option \<Rightarrow> session" where
  "DictationMode segs elements initialIndex =
     elements\<lparr>segments := segs,
       currentIndex := nat (initial_index initialIndex (length segs)),
       isChecked := False, correctCount := 0, attempts := 0\<rparr>"

definition showSummary :: "session \<Rightarrow> session" where
  "showSummary s = s\<lparr>summaryShown := True\<rparr>"

definition render :: "session \<Rightarrow> session" where
  "render s =
     (if currentIndex s \<ge> length (segments s) then showSummary s
      else s\<lparr>isChecked := False, attempts := 0, userInput := [], inputDisabled := False,
             btnCheckHidden := False, btnNextHidden := True,
             btnReveal := map_option (\<lambda>_. True) (btnReveal s), feedbackHidden := True\<rparr>)"

definition count_type :: "tag \<Rightarrow> item list \<Rightarrow> nat" where
  "count_type t alignment = length (filter (\<lambda>a. type a = t) alignment)"

text \<open>
  \<open>checkAnswer\<close>. \<open>seg\<close> is read before the empty-input guard but dereferenced only after
  it, so an index past the segments throws only for a non-empty answer, and before any
  field is assigned. \<open>revealAnswer\<close> sets \<open>isChecked\<close> before it reads the segment.
\<close>

definition checkAnswer :: "(jsstring \<Rightarrow> jsstring) \<Rightarrow> session \<Rightarrow> outcome" where
  "checkAnswer lc s =
     (if isChecked s then Inr s
      else let userText = trim (userInput s)
      in if userText = [] then
           Inr (s\<lparr>feedbackHidden := False, feedbackContent := EnterAnAnswer\<rparr>)
         else if currentIndex s \<ge> length (segments s) then Inl (TypeError, s)
         else
           let seg = segments s ! currentIndex s;
               uWords = words_of userText;
               cWords = words_of (trim (correct_text seg));
               alignment = lcsAlign lc uWords cWords;
               exactCount = count_type Exact alignment;
               nearCount = count_type Near alignment;
               missingCount = count_type Missing alignment;
               extraCount = count_type Extra alignment;
               isExactCorrect =
                 (normalizeForCompare lc userText = normalizeForCompare lc (correct_text seg));
               isNearCorrect = (missingCount = 0 \<and> extraCount = 0 \<and> nearCount > 0)
           in if isExactCorrect \<or> isNearCorrect then
                Inr (s\<lparr>isChecked := True, correctCount := correctCount s + 1,
                       feedbackHidden := False,
                       feedbackContent :=
                         (if isExactCorrect then ExactlyCorrect else NearlyCorrect nearCount),
                       inputDisabled := True, btnCheckHidden := True,
                       btnReveal := map_option (\<lambda>_. True) (btnReveal s),
                       btnNextHidden := False\<rparr>)
              else
                Inr (s\<lparr>attempts := attempts s + 1,
                       feedbackHidden := False,
                       feedbackContent := Incorrect (exactCount + nearCount) (length cWords),
                       inputDisabled := False,
                       btnReveal :=
                         (if attempts s + 1 \<ge> MAX_ATTEMPTS
                          then map_option (\<lambda>_. False) (btnReveal s) else btnReveal s)\<rparr>))"

definition revealAnswer :: "session \<Rightarrow> outcome" where
  "revealAnswer s =
     (if currentIndex s \<ge> length (segments s) then Inl (TypeError, s\<lparr>isChecked := True\<rparr>)
      else let seg = segments s ! currentIndex s
      in Inr (s\<lparr>isChecked := True, userInput := correct_text seg, inputDisabled := True,
                feedbackContent := Revealed, feedbackHidden := False, btnCheckHidden := True,
                btnReveal := map_option (\<lambda>_. True) (btnReveal s), btnNextHidden := False\<rparr>))"

text \<open>\<open>nextSegment\<close>; the \<open>playCurrentSegment\<close> at its end touches the audio only.\<close>

definition nextSegment :: "session \<Rightarrow> session" where
  "nextSegment s = render (s\<lparr>currentIndex := currentIndex s + 1\<rparr>)"

text \<open>The learner types \<open>t\<close> and presses the check button.\<close>

definition submit :: "(jsstring \<Rightarrow> jsstring) \<Rightarrow> jsstring \<Rightarrow> session \<Rightarrow> outcome" where
  "submit lc t s = checkAnswer lc (s\<lparr>userInput := t\<rparr>)"

section \<open>Loading the segments\<close>

text \<open>
  A raw segment of the page's JSON. A field is \<open>None\<close> when it is absent or \<open>null\<close>. A
  time field holds what \<open>parseFloat\<close> makes of its value: a number or \<open>NaN\<close>.
\<close>

datatype jsnumber = Num rat | NaN

record raw_segment =
  raw_type :: "jsstring option"
  raw_start_time :: "jsnumber option"
  raw_start :: "jsnumber option"
  raw_end_time :: "jsnumber option"
  raw_end :: "jsnumber option"
  raw_correct_text :: "jsstring option"
  raw_text :: "jsstring option"
  raw_hint :: "jsstring option"

text \<open>\<^verbatim>\<open>parseFloat(a != null ? a : b) || 0\<close>: \<open>NaN\<close>, zero and a missing value give 0.\<close>

definition parse_time :: "jsnumber option \<Rightarrow> jsnumber option \<Rightarrow> rat" where
  "parse_time a b =
     (case (case a of Some v \<Rightarrow> Some v | None \<Rightarrow> b) of
        Some (Num r) \<Rightarrow> r
      | _ \<Rightarrow> 0)"

text \<open>The filter of the loader: no type, or the type \<open>content\<close>.\<close>

definition keeps :: "(jsstring \<Rightarrow> jsstring) \<Rightarrow> raw_segment \<Rightarrow> bool" where
  "keeps lc s =
     (let t = lc (case raw_type s of None \<Rightarrow> [] | Some x \<Rightarrow> x)
      in if t = [] then True else t = js ''content'')"

definition normalize_segment :: "raw_segment \<Rightarrow> nat \<Rightarrow> segment" where
  "normalize_segment s idx =
     \<lparr>start_time = parse_time (raw_start_time s) (raw_start s),
      end_time = parse_time (raw_end_time s) (raw_end s),
      correct_text =
        (case raw_correct_text s of Some t \<Rightarrow> t
         | None \<Rightarrow> (case raw_text s of None \<Rightarrow> [] | Some t \<Rightarrow> t)),
      hint = (case raw_hint s of None \<Rightarrow> [] | Some h \<Rightarrow> h),
      order = idx + 1\<rparr>"

definition load_segments :: "(jsstring \<Rightarrow> jsstring) \<Rightarrow> raw_segment list \<Rightarrow> segment list" where
  "load_segments lc rawSegments =
     (let kept = filter (keeps lc) rawSegments
      in map (\<lambda>(s, idx). normalize_segment s idx) (zip kept [0..<length kept]))"

text \<open>The spec's malformed segment: \<open>end_time \<le> start_time\<close> or a negative \<open>start_time\<close>.\<close>

definition malformed :: "segment \<Rightarrow> bool" where
  "malformed g \<longleftrightarrow> end_time g \<le> start_time g \<or> start_time g < 0"

section \<open>The audio seeker and the browser's event loop\<close>

text \<open>
  \<open>AudioSeeker\<close> keeps no state of its own: what a call leaves behind are listeners on the
  audio element, timers and pending \<open>play()\<close> promises, each a closure of one
  \<open>seekAndPlay\<close> call. The state below holds them; the browser runs them one at a time
  (\<open>fire_canplay\<close>, \<open>fire_seeked\<close>, \<open>fire_timer\<close>, \<open>resolve_play\<close>, \<open>reject_play\<close>) and
  changes the element in between (\<open>browser_sets\<close>). A call is known by its number, and
  \<open>Started n\<close> and \<open>Ended n\<close> in the log are the calls of its \<open>onPlay\<close> and \<open>onEnd\<close>.

  Times are doubles, which are rationals. Comparing two doubles is exact; subtracting them
  rounds, and \<open>toDouble\<close> is that rounding of the platform, from the exact result to the
  double the subtraction returns.
\<close>

record audio =
  src :: jsstring
  sourceSrc :: "jsstring option"
  duration :: "rat option"
  readyState :: nat
  networkState :: nat
  currentTime :: rat
  paused :: bool

record request =
  targetTime :: rat
  endTime :: rat
  continuous :: bool
  seekCompleted :: bool
  pollAttempts :: nat

datatype callback = Started nat | Ended nat

datatype listener = OnCanPlay nat | OnSeeked nat

datatype timer = Retry nat | Poll nat | ThenSeek nat | ThenStart nat | CheckEnd nat

datatype promise = PlayToStart nat | PlayToSeek nat

record seeker =
  audio :: audio
  locationHref :: jsstring
  toDouble :: "rat \<Rightarrow> rat"
  requests :: "request list"
  listeners :: "listener list"
  timers :: "timer list"
  promises :: "promise list"
  loadCalls :: nat
  log :: "callback list"

text \<open>\<open>checkAudioReady\<close>, which may set \<open>audio.src\<close>.\<close>

definition checkAudioReady :: "rat \<Rightarrow> jsstring \<Rightarrow> audio \<Rightarrow> bool \<times> audio" where
  "checkAudioReady target href a =
     (let src0 = (case sourceSrc a of Some x \<Rightarrow> x | None \<Rightarrow> src a)
      in if src0 = [] then (False, a)
         else if src a = [] \<or> src a = href then (False, a\<lparr>src := src0\<rparr>)
         else if duration a = None \<or> duration a = Some 0 then (False, a)
         else if target < 0 \<or> target \<ge> the (duration a) then (False, a)
         else if readyState a < 2 then (False, a)
         else (True, a))"

definition startPlayback :: "nat \<Rightarrow> seeker \<Rightarrow> seeker" where
  "startPlayback r s = s\<lparr>promises := promises s @ [PlayToStart r]\<rparr>"

definition playThenSeek :: "nat \<Rightarrow> seeker \<Rightarrow> seeker" where
  "playThenSeek r s = s\<lparr>promises := promises s @ [PlayToSeek r]\<rparr>"

definition seekAndPlayInternal :: "nat \<Rightarrow> seeker \<Rightarrow> seeker" where
  "seekAndPlayInternal r s =
     (let q = requests s ! r;
          (ready, a) = checkAudioReady (targetTime q) (locationHref s) (audio s)
      in if \<not> ready then
           s\<lparr>audio := a, listeners := listeners s @ [OnCanPlay r],
             loadCalls := (if networkState a = 0 \<or> networkState a = 3
                           then loadCalls s + 1 else loadCalls s)\<rparr>
         else
           s\<lparr>audio := a\<lparr>currentTime := targetTime q\<rparr>,
             requests := (requests s)[r := q\<lparr>seekCompleted := False, pollAttempts := 0\<rparr>],
             listeners := listeners s @ [OnSeeked r],
             timers := timers s @ [Poll r]\<rparr>)"

definition seekAndPlay :: "rat \<Rightarrow> rat \<Rightarrow> bool \<Rightarrow> seeker \<Rightarrow> seeker" where
  "seekAndPlay target end cont s =
     seekAndPlayInternal (length (requests s))
       (s\<lparr>requests := requests s @
            [\<lparr>targetTime = target, endTime = end, continuous = cont,
              seekCompleted = False, pollAttempts = 0\<rparr>]\<rparr>)"

text \<open>
  What an explicit stop does to playback: \<open>DictationMode.stop\<close> pauses the audio; its
  \<open>checkInterval\<close> field is \<open>null\<close> from the constructor on, so nothing is cleared.
\<close>

definition stop :: "seeker \<Rightarrow> seeker" where
  "stop s = s\<lparr>audio := (audio s)\<lparr>paused := True\<rparr>\<rparr>"

definition onCanPlay :: "nat \<Rightarrow> seeker \<Rightarrow> seeker" where
  "onCanPlay r s = s\<lparr>listeners := removeAll (OnCanPlay r) (listeners s),
                      timers := timers s @ [Retry r]\<rparr>"

definition onSeeked :: "nat \<Rightarrow> seeker \<Rightarrow> seeker" where
  "onSeeked r s =
     (let q = requests s ! r;
          s1 = s\<lparr>requests := (requests s)[r := q\<lparr>seekCompleted := True\<rparr>],
                 listeners := removeAll (OnSeeked r) (listeners s)\<rparr>
      in if \<bar>toDouble s (currentTime (audio s) - targetTime q)\<bar> < 1 / 2 then startPlayback r s1
         else playThenSeek r s1)"

text \<open>An event runs the listeners registered for it when it fires, in their order.\<close>

definition fire_canplay :: "seeker \<Rightarrow> seeker" where
  "fire_canplay s = fold onCanPlay [r. OnCanPlay r \<leftarrow> listeners s] s"

definition fire_seeked :: "seeker \<Rightarrow> seeker" where
  "fire_seeked s = fold onSeeked [r. OnSeeked r \<leftarrow> listeners s] s"

definition drop_nth :: "nat \<Rightarrow> 'x list \<Rightarrow> 'x list" where
  "drop_nth k xs = take k xs @ drop (k + 1) xs"

definition poll :: "nat \<Rightarrow> nat \<Rightarrow> seeker \<Rightarrow> seeker" where
  "poll k r s =
     (let q = requests s ! r
      in if seekCompleted q then s\<lparr>timers := drop_nth k (timers s)\<rparr>
         else
           let n = pollAttempts q + 1
           in if \<bar>toDouble s (currentTime (audio s) - targetTime q)\<bar> < 1 / 2 \<or> n \<ge> 30 then
                startPlayback r
                  (s\<lparr>timers := drop_nth k (timers s),
                     listeners := removeAll (OnSeeked r) (listeners s),
                     requests := (requests s)[r := q\<lparr>pollAttempts := n, seekCompleted := True\<rparr>]\<rparr>)
              else s\<lparr>requests := (requests s)[r := q\<lparr>pollAttempts := n\<rparr>]\<rparr>)"

definition checkEnd :: "nat \<Rightarrow> nat \<Rightarrow> seeker \<Rightarrow> seeker" where
  "checkEnd k r s =
     (if \<not> paused (audio s) \<and> currentTime (audio s) \<ge> endTime (requests s ! r) then
        s\<lparr>audio := (audio s)\<lparr>paused := True\<rparr>, timers := drop_nth k (timers s),
          log := log s @ [Ended r]\<rparr>
      else s)"

text \<open>The \<open>k\<close>-th pending timer comes due.\<close>

definition fire_timer :: "nat \<Rightarrow> seeker \<Rightarrow> seeker" where
  "fire_timer k s =
     (if k \<ge> length (timers s) then s
      else case timers s ! k of
          Retry r \<Rightarrow> seekAndPlayInternal r (s\<lparr>timers := drop_nth k (timers s)\<rparr>)
        | Poll r \<Rightarrow> poll k r s
        | ThenSeek r \<Rightarrow>
            s\<lparr>audio := (audio s)\<lparr>currentTime := targetTime (requests s ! r)\<rparr>,
              timers := drop_nth k (timers s) @ [ThenStart r]\<rparr>
        | ThenStart r \<Rightarrow> startPlayback r (s\<lparr>timers := drop_nth k (timers s)\<rparr>)
        | CheckEnd r \<Rightarrow> checkEnd k r s)"

text \<open>The \<open>k\<close>-th pending \<open>play()\<close> promise is fulfilled: the element is playing.\<close>

definition resolve_play :: "nat \<Rightarrow> seeker \<Rightarrow> seeker" where
  "resolve_play k s =
     (if k \<ge> length (promises s) then s
      else
        let s1 = s\<lparr>promises := drop_nth k (promises s), audio := (audio s)\<lparr>paused := False\<rparr>\<rparr>
        in case promises s ! k of
            PlayToStart r \<Rightarrow>
              (let q = requests s ! r; s2 = s1\<lparr>log := log s1 @ [Started r]\<rparr>
               in if \<not> continuous q \<and> endTime q \<noteq> 0
                  then s2\<lparr>timers := timers s2 @ [CheckEnd r]\<rparr> else s2)
          | PlayToSeek r \<Rightarrow>
              s1\<lparr>audio := (audio s1)\<lparr>paused := True\<rparr>, timers := timers s1 @ [ThenSeek r]\<rparr>)"

text \<open>The \<open>k\<close>-th pending \<open>play()\<close> promise is rejected.\<close>

definition reject_play :: "nat \<Rightarrow> seeker \<Rightarrow> seeker" where
  "reject_play k s =
     (if k \<ge> length (promises s) then s
      else
        let s1 = s\<lparr>promises := drop_nth k (promises s)\<rparr>
        in case promises s ! k of
            PlayToStart r \<Rightarrow> s1
          | PlayToSeek r \<Rightarrow> startPlayback r s1)"

definition browser_sets :: "audio \<Rightarrow> seeker \<Rightarrow> seeker" where
  "browser_sets a s = s\<lparr>audio := a\<rparr>"

text \<open>What the browser may do next, and a run of such steps.\<close>

datatype event =
    CanPlay | Seeked | TimerDue nat | PlayFulfilled nat | PlayRejected nat | Element audio

fun happen :: "event \<Rightarrow> seeker \<Rightarrow> seeker" where
  "happen CanPlay s = fire_canplay s"
| "happen Seeked s = fire_seeked s"
| "happen (TimerDue k) s = fire_timer k s"
| "happen (PlayFulfilled k) s = resolve_play k s"
| "happen (PlayRejected k) s = reject_play k s"
| "happen (Element a) s = browser_sets a s"

definition run :: "event list \<Rightarrow> seeker \<Rightarrow> seeker" where
  "run es s = fold happen es s"

section \<open>Definitions for the proofs\<close>

text \<open>A table with \<open>r\<close> rows of \<open>c\<close> cells.\<close>

definition rect :: "'x list list \<Rightarrow> nat \<Rightarrow> nat \<Rightarrow> bool" where
  "rect t r c \<longleftrightarrow> length t = r \<and> (\<forall>k<r. length (t ! k) = c)"

text \<open>The edit-distance recurrence on prefix lengths, which the table is to hold.\<close>

fun lev_rec :: "'a list \<Rightarrow> 'a list \<Rightarrow> nat \<Rightarrow> nat \<Rightarrow> nat" where
  "lev_rec a b 0 j = j"
| "lev_rec a b (Suc i) 0 = Suc i"
| "lev_rec a b (Suc i) (Suc j) =
     (if a ! i = b ! j then lev_rec a b i j
      else 1 + min (lev_rec a b i j) (min (lev_rec a b i (Suc j)) (lev_rec a b (Suc i) j)))"

text \<open>
  The loop invariant: when the main loop is at row \<open>i\<close> and column \<open>k\<close>, the border and
  every cell before \<open>(i, k)\<close> hold the recurrence.
\<close>

definition lev_inv :: "'a list \<Rightarrow> 'a list \<Rightarrow> nat list list \<Rightarrow> nat \<Rightarrow> nat \<Rightarrow> bool" where
  "lev_inv a b dp i k \<longleftrightarrow>
     rect dp (length a + 1) (length b + 1) \<and>
     (\<forall>i' j'. i' \<le> length a \<and> j' \<le> length b \<and> (i' = 0 \<or> j' = 0 \<or> i' < i \<or> (i' = i \<and> j' < k))
        \<longrightarrow> dp ! i' ! j' = lev_rec a b i' j')"

text \<open>The shape of an alignment item, and a match table with classification results only.\<close>

definition wf_item :: "item \<Rightarrow> bool" where
  "wf_item it \<longleftrightarrow>
     (type it = Missing \<longrightarrow> userWord it = None \<and> correctWord it \<noteq> None)
   \<and> (type it = Extra \<longrightarrow> correctWord it = None \<and> userWord it \<noteq> None)
   \<and> (type it \<in> {Exact, Near} \<longrightarrow> userWord it \<noteq> None \<and> correctWord it \<noteq> None)"

definition mt_ok :: "jsstring list \<Rightarrow> jsstring list \<Rightarrow> tag list list \<Rightarrow> bool" where
  "mt_ok uw cw mt \<longleftrightarrow>
     (\<forall>i<length uw. \<forall>j<length cw. mt ! i ! j = Exact \<or> mt ! i ! j = Near \<or> mt ! i ! j = Wrong)"

text \<open>
  A page with a reveal button, a segment with a given text, and a session constructed on
  them and rendered.
\<close>

definition page :: session where
  "page = \<lparr>segments = [], currentIndex = 0, isChecked = False, correctCount = 0, attempts = 0,
     userInput = [], inputDisabled = False, btnCheckHidden = False, btnNextHidden = True,
     btnReveal = Some True, feedbackHidden = True, feedbackContent = NoFeedback,
     summaryShown = False\<rparr>"

definition segment_of :: "jsstring \<Rightarrow> segment" where
  "segment_of text = \<lparr>start_time = 0, end_time = 1, correct_text = text, hint = [], order = 1\<rparr>"

definition started :: "jsstring list \<Rightarrow> session" where
  "started texts = render (DictationMode (map segment_of texts) page None)"

text \<open>
  The session after an incorrect answer \<open>x\<close> that matches no word of a one-word segment,
  and after the answer was revealed.
\<close>

definition wrong_x :: "session \<Rightarrow> session" where
  "wrong_x s =
     s\<lparr>userInput := js ''x'', attempts := attempts s + 1, feedbackHidden := False,
       feedbackContent := Incorrect 0 1, inputDisabled := False,
       btnReveal := (if attempts s + 1 \<ge> MAX_ATTEMPTS
                     then map_option (\<lambda>_. False) (btnReveal s) else btnReveal s)\<rparr>"

definition revealed :: "session \<Rightarrow> session" where
  "revealed s =
     s\<lparr>isChecked := True, userInput := correct_text (segments s ! currentIndex s),
       inputDisabled := True, feedbackContent := Revealed, feedbackHidden := False,
       btnCheckHidden := True, btnReveal := map_option (\<lambda>_. True) (btnReveal s),
       btnNextHidden := False\<rparr>"

text \<open>Three checks, the reveal and the move to the next segment, one after the other.\<close>

definition and_then ::
  "outcome \<Rightarrow> (session \<Rightarrow> outcome) \<Rightarrow> outcome" where
  "and_then r f = (case r of Inl e \<Rightarrow> Inl e | Inr s \<Rightarrow> f s)"

definition three_checks_reveal_next ::
  "(jsstring \<Rightarrow> jsstring) \<Rightarrow> jsstring \<Rightarrow> jsstring \<Rightarrow> jsstring \<Rightarrow> session \<Rightarrow> outcome" where
  "three_checks_reveal_next lc t1 t2 t3 s =
     and_then (and_then (and_then (and_then (submit lc t1 s) (submit lc t2)) (submit lc t3))
       revealAnswer) (Inr \<circ> nextSegment)"

text \<open>A raw segment that ends before it starts, with no type.\<close>

definition backwards :: raw_segment where
  "backwards = \<lparr>raw_type = None, raw_start_time = Some (Num 5), raw_start = None,
     raw_end_time = Some (Num 3), raw_end = None, raw_correct_text = Some (js ''hello''),
     raw_text = None, raw_hint = None\<rparr>"

text \<open>
  A loaded, paused audio element, and a seeker with nothing pending. Its rounding is
  exact, as the platform's is on the differences of the runs below, which are all 0.
\<close>

definition ready_audio :: audio where
  "ready_audio = \<lparr>src = js ''a.mp3'', sourceSrc = None, duration = Some 100, readyState = 4,
     networkState = 1, currentTime = 0, paused = True\<rparr>"

definition idle :: seeker where
  "idle = \<lparr>audio = ready_audio, locationHref = js ''page'', toDouble = (\<lambda>x. x),
     requests = [], listeners = [], timers = [], promises = [], loadCalls = 0, log = []\<rparr>"

section \<open>Tables\<close>

lemma rect_replicate: "rect (replicate r (replicate c v)) r c"
  by (simp add: rect_def)

lemma rect_set2: "rect t r c \<Longrightarrow> rect (set2 t i j v) r c"
  by (cases "i < length t") (auto simp: rect_def set2_def nth_list_update)

lemma nth_set2:
  "rect t r c \<Longrightarrow> i < r \<Longrightarrow> j < c \<Longrightarrow>
   set2 t i j v ! i' ! j' = (if i' = i \<and> j' = j then v else t ! i' ! j')"
  by (auto simp: rect_def set2_def nth_list_update)

lemma fill_row:
  assumes "rect t r c" "i < r" "k \<le> c"
  shows "rect (fold (\<lambda>j t. set2 t i j (g i j)) [0..<k] t) r c \<and>
     (\<forall>i' j'. fold (\<lambda>j t. set2 t i j (g i j)) [0..<k] t ! i' ! j' =
         (if i' = i \<and> j' < k then g i j' else t ! i' ! j'))"
  using assms(3)
proof (induction k)
  case 0
  then show ?case using assms(1) by simp
next
  case (Suc k)
  then show ?case
    using assms(2) by (auto simp: rect_set2 nth_set2 [where r = r and c = c])
qed

lemma fill_rows:
  assumes "rect t r c" "k \<le> r"
  shows "rect (fold (\<lambda>i t. fold (\<lambda>j t. set2 t i j (g i j)) [0..<c] t) [0..<k] t) r c \<and>
     (\<forall>i' j'. j' < c \<longrightarrow>
        fold (\<lambda>i t. fold (\<lambda>j t. set2 t i j (g i j)) [0..<c] t) [0..<k] t ! i' ! j' =
         (if i' < k then g i' j' else t ! i' ! j'))"
  using assms(2)
proof (induction k)
  case 0
  then show ?case using assms(1) by simp
next
  case (Suc k)
  let ?t = "fold (\<lambda>i t. fold (\<lambda>j t. set2 t i j (g i j)) [0..<c] t) [0..<k] t"
  have ih: "rect ?t r c" "\<And>i' j'. j' < c \<Longrightarrow> ?t ! i' ! j' = (if i' < k then g i' j' else t ! i' ! j')"
    using Suc by auto
  have row: "rect (fold (\<lambda>j t. set2 t k j (g k j)) [0..<c] ?t) r c \<and>
     (\<forall>i' j'. fold (\<lambda>j t. set2 t k j (g k j)) [0..<c] ?t ! i' ! j' =
         (if i' = k \<and> j' < c then g k j' else ?t ! i' ! j'))"
    using ih(1) Suc.prems by (intro fill_row) auto
  show ?case
    using row ih(2) by (auto simp: less_Suc_eq)
qed

section \<open>Levenshtein distance: the table holds the edit distance\<close>

lemma lev_rec_0 [simp]: "lev_rec a b i 0 = i"
  by (cases i) simp_all

lemma lev_cell_rec:
  assumes "lev_inv a b dp i k" "0 < i" "i \<le> length a" "0 < k" "k \<le> length b"
  shows "lev_cell a b dp i k = lev_rec a b i k"
proof -
  obtain i0 k0 where [simp]: "i = Suc i0" "k = Suc k0"
    using assms by (cases i; cases k) auto
  have c: "\<And>i' j'. i' \<le> length a \<Longrightarrow> j' \<le> length b \<Longrightarrow> (i' < i \<or> (i' = i \<and> j' < k))
      \<Longrightarrow> dp ! i' ! j' = lev_rec a b i' j'"
    using assms(1) unfolding lev_inv_def by blast
  have "dp ! i0 ! k0 = lev_rec a b i0 k0" "dp ! i0 ! Suc k0 = lev_rec a b i0 (Suc k0)"
    "dp ! Suc i0 ! k0 = lev_rec a b (Suc i0) k0"
    using assms(3,5) by (auto intro!: c)
  then show ?thesis
    by (simp add: lev_cell_def)
qed

lemma lev_inv_step:
  assumes "lev_inv a b dp i k" "0 < i" "i \<le> length a" "0 < k" "k \<le> length b"
  shows "lev_inv a b (set2 dp i k (lev_cell a b dp i k)) i (Suc k)"
proof -
  have r: "rect dp (length a + 1) (length b + 1)"
    using assms(1) by (simp add: lev_inv_def)
  have v: "lev_cell a b dp i k = lev_rec a b i k"
    using assms by (rule lev_cell_rec)
  show ?thesis
    unfolding lev_inv_def
  proof (intro conjI allI impI)
    show "rect (set2 dp i k (lev_cell a b dp i k)) (length a + 1) (length b + 1)"
      using r by (rule rect_set2)
  next
    fix i' j'
    assume h: "i' \<le> length a \<and> j' \<le> length b \<and> (i' = 0 \<or> j' = 0 \<or> i' < i \<or> i' = i \<and> j' < Suc k)"
    have n: "set2 dp i k (lev_cell a b dp i k) ! i' ! j' =
        (if i' = i \<and> j' = k then lev_cell a b dp i k else dp ! i' ! j')"
      using r assms(3,5) by (intro nth_set2) auto
    show "set2 dp i k (lev_cell a b dp i k) ! i' ! j' = lev_rec a b i' j'"
    proof (cases "i' = i \<and> j' = k")
      case True
      then show ?thesis using n v by simp
    next
      case False
      then have "i' = 0 \<or> j' = 0 \<or> i' < i \<or> (i' = i \<and> j' < k)"
        using h by auto
      then have "dp ! i' ! j' = lev_rec a b i' j'"
        using assms(1) h unfolding lev_inv_def by blast
      then show ?thesis using n False by simp
    qed
  qed
qed

lemma lev_inv_row:
  assumes "lev_inv a b dp i 1" "0 < i" "i \<le> length a" "0 < k" "k \<le> length b + 1"
  shows "lev_inv a b (fold (\<lambda>j dp. set2 dp i j (lev_cell a b dp i j)) [1..<k] dp) i k"
  using assms(4,5)
proof (induction k)
  case 0
  then show ?case by simp
next
  case (Suc k)
  show ?case
  proof (cases "k = 0")
    case True
    then show ?thesis using assms(1) by simp
  next
    case False
    then have "lev_inv a b (fold (\<lambda>j dp. set2 dp i j (lev_cell a b dp i j)) [1..<k] dp) i k"
      using Suc by simp
    then have "lev_inv a b (set2 (fold (\<lambda>j dp. set2 dp i j (lev_cell a b dp i j)) [1..<k] dp) i k
       (lev_cell a b (fold (\<lambda>j dp. set2 dp i j (lev_cell a b dp i j)) [1..<k] dp) i k)) i (Suc k)"
      using assms(2,3) False Suc.prems by (intro lev_inv_step) auto
    moreover have "[1..<Suc k] = [1..<k] @ [k]"
      using False by (simp add: upt_Suc_append)
    ultimately show ?thesis by simp
  qed
qed

lemma lev_inv_next_row:
  assumes "lev_inv a b dp i (length b + 1)"
  shows "lev_inv a b dp (Suc i) 1"
  using assms unfolding lev_inv_def
  by (metis Suc_eq_plus1 le_imp_less_Suc less_Suc_eq less_one)

lemma lev_inv_rows:
  assumes "lev_inv a b dp 1 1" "0 < i" "i \<le> length a + 1"
  shows "lev_inv a b
     (fold (\<lambda>i dp. fold (\<lambda>j dp. set2 dp i j (lev_cell a b dp i j)) [1..<length b + 1] dp) [1..<i] dp)
     i 1"
  using assms(2,3)
proof (induction i)
  case 0
  then show ?case by simp
next
  case (Suc i)
  let ?row = "\<lambda>i dp. fold (\<lambda>j dp. set2 dp i j (lev_cell a b dp i j)) [1..<length b + 1] dp"
  show ?case
  proof (cases "i = 0")
    case True
    then show ?thesis using assms(1) by simp
  next
    case False
    then have "lev_inv a b (fold ?row [1..<i] dp) i 1"
      using Suc by simp
    then have "lev_inv a b (?row i (fold ?row [1..<i] dp)) i (length b + 1)"
      using False Suc.prems by (intro lev_inv_row) auto
    then have "lev_inv a b (?row i (fold ?row [1..<i] dp)) (Suc i) 1"
      by (rule lev_inv_next_row)
    moreover have "[1..<Suc i] = [1..<i] @ [i]"
      using False by (simp add: upt_Suc_append)
    ultimately show ?thesis by simp
  qed
qed

lemma init_col:
  assumes "rect t r c" "0 < c" "k \<le> r"
  shows "rect (fold (\<lambda>i dp. set2 dp i 0 i) [0..<k] t) r c \<and>
     (\<forall>i' j'. fold (\<lambda>i dp. set2 dp i 0 i) [0..<k] t ! i' ! j' =
         (if j' = 0 \<and> i' < k then i' else t ! i' ! j'))"
  using assms(3)
proof (induction k)
  case 0
  then show ?case using assms(1) by simp
next
  case (Suc k)
  then show ?case
    using assms(2) by (auto simp: rect_set2 nth_set2 [where r = r and c = c])
qed

lemma init_row:
  assumes "rect t r c" "0 < r" "k \<le> c"
  shows "rect (fold (\<lambda>j dp. set2 dp 0 j j) [0..<k] t) r c \<and>
     (\<forall>i' j'. fold (\<lambda>j dp. set2 dp 0 j j) [0..<k] t ! i' ! j' =
         (if i' = 0 \<and> j' < k then j' else t ! i' ! j'))"
  using assms(3)
proof (induction k)
  case 0
  then show ?case using assms(1) by simp
next
  case (Suc k)
  then show ?case
    using assms(2) by (auto simp: rect_set2 nth_set2 [where r = r and c = c])
qed

lemma lev_table_rec: "lev_table a b ! length a ! length b = lev_rec a b (length a) (length b)"
proof -
  let ?m = "length a" and ?n = "length b"
  let ?dp0 = "replicate (?m + 1) (replicate (?n + 1) (0::nat))"
  let ?dp1 = "fold (\<lambda>i dp. set2 dp i 0 i) [0..<?m + 1] ?dp0"
  let ?dp2 = "fold (\<lambda>j dp. set2 dp 0 j j) [0..<?n + 1] ?dp1"
  have c1: "rect ?dp1 (?m + 1) (?n + 1) \<and>
     (\<forall>i' j'. ?dp1 ! i' ! j' = (if j' = 0 \<and> i' < ?m + 1 then i' else ?dp0 ! i' ! j'))"
    by (rule init_col [OF rect_replicate]) simp_all
  then have c2: "rect ?dp2 (?m + 1) (?n + 1) \<and>
     (\<forall>i' j'. ?dp2 ! i' ! j' = (if i' = 0 \<and> j' < ?n + 1 then j' else ?dp1 ! i' ! j'))"
    by (intro init_row) simp_all
  have "lev_inv a b ?dp2 1 1"
    unfolding lev_inv_def
  proof (intro conjI allI impI)
    show "rect ?dp2 (?m + 1) (?n + 1)" using c2 by simp
  next
    fix i' j'
    assume "i' \<le> ?m \<and> j' \<le> ?n \<and> (i' = 0 \<or> j' = 0 \<or> i' < 1 \<or> i' = 1 \<and> j' < 1)"
    then have h: "i' \<le> ?m" "j' \<le> ?n" "i' = 0 \<or> j' = 0" by auto
    have "?dp2 ! i' ! j' = (if i' = 0 \<and> j' < ?n + 1 then j' else ?dp1 ! i' ! j')"
      using c2 by blast
    moreover have "?dp1 ! i' ! j' = (if j' = 0 \<and> i' < ?m + 1 then i' else ?dp0 ! i' ! j')"
      using c1 by blast
    ultimately show "?dp2 ! i' ! j' = lev_rec a b i' j'"
      using h by (cases "i' = 0") auto
  qed
  then have "lev_inv a b
     (fold (\<lambda>i dp. fold (\<lambda>j dp. set2 dp i j (lev_cell a b dp i j)) [1..<?n + 1] dp) [1..<?m + 1] ?dp2)
     (?m + 1) 1"
    by (intro lev_inv_rows) simp_all
  then have "lev_inv a b (lev_table a b) (?m + 1) 1"
    by (simp add: lev_table_def Let_def)
  then show ?thesis
    unfolding lev_inv_def by auto
qed

lemma levenshtein_rec: "levenshtein a b = lev_rec a b (length a) (length b)"
  using lev_table_rec [of a b] by (simp add: levenshtein_def Let_def)

lemma lev_rec_sym: "lev_rec a b i j = lev_rec b a j i"
proof (induction a b i j rule: lev_rec.induct)
  case (1 a b j)
  then show ?case by simp
next
  case (2 a b i)
  then show ?case by simp
next
  case (3 a b i j)
  then show ?case by (auto simp: min.commute min.left_commute)
qed

lemma lev_rec_refl: "lev_rec a a i i = 0"
  by (induction i) simp_all

text \<open>
  C5. For all strings \<open>a\<close>, \<open>b\<close>, \<open>s\<close>: \<open>levenshtein(a, a) = 0\<close>, \<open>levenshtein("", s)\<close> and
  \<open>levenshtein(s, "")\<close> are the length of \<open>s\<close>, and \<open>levenshtein(a, b) = levenshtein(b, a)\<close>.
\<close>

theorem levenshtein_properties:
  "levenshtein a a = 0 \<and> levenshtein [] s = length s \<and> levenshtein s [] = length s
     \<and> levenshtein a b = levenshtein b a"
  by (simp add: levenshtein_rec lev_rec_refl lev_rec_sym [of a b])

section \<open>Classification\<close>

lemma mt_table_nth:
  assumes "i < length uw" "j < length cw"
  shows "mt_table lc uw cw ! i ! j = wordMatchType lc (uw ! i) (cw ! j)"
proof -
  have "rect (replicate (length uw) (replicate (length cw) Wrong)) (length uw) (length cw)"
    by (rule rect_replicate)
  from fill_rows [OF this, of "length uw" "\<lambda>i j. wordMatchType lc (uw ! i) (cw ! j)"] assms
  show ?thesis
    by (simp add: mt_table_def Let_def)
qed

lemma wordMatchType_cases:
  "wordMatchType lc u c = Exact \<or> wordMatchType lc u c = Near \<or> wordMatchType lc u c = Wrong"
  by (simp add: wordMatchType_def Let_def)

text \<open>
  C2. With \<open>u\<close> and \<open>c\<close> the normalized words: \<open>wrong\<close> when either is empty, \<open>exact\<close> when
  they are equal, and otherwise, with the threshold 0 for a reference of at most 3 code
  units, 1 for 4 or 5 and 2 from 6 on, \<open>near\<close> exactly when the threshold is positive and
  the Levenshtein distance of \<open>u\<close> and \<open>c\<close> is at most the threshold, and \<open>wrong\<close> if not.
\<close>

theorem wordMatchType_classification:
  "let u = normalizeWord lc uword; c = normalizeWord lc cword;
       threshold = (if length c \<le> 3 then 0 else if length c \<le> 5 then 1 else 2 :: nat);
       result = wordMatchType lc uword cword
   in (u = [] \<or> c = [] \<longrightarrow> result = Wrong)
    \<and> (u \<noteq> [] \<and> c \<noteq> [] \<and> u = c \<longrightarrow> result = Exact)
    \<and> (u \<noteq> [] \<and> c \<noteq> [] \<and> u \<noteq> c \<longrightarrow>
         (result = Near \<longleftrightarrow> threshold > 0 \<and> levenshtein u c \<le> threshold)
       \<and> (result \<noteq> Near \<longrightarrow> result = Wrong))"
  by (simp add: wordMatchType_def Let_def)


lemmas string_eval =
  js_def ascii_lower_def normalizeWord_def trim_def strip_punct_def is_ws_def is_punct_def

theorem wordMatchType_classification_witness:
  "normalizeWord ascii_lower (js ''hapy'') \<noteq> []
   \<and> normalizeWord ascii_lower (js ''happy'') \<noteq> []
   \<and> normalizeWord ascii_lower (js ''hapy'') \<noteq> normalizeWord ascii_lower (js ''happy'')
   \<and> levenshtein (normalizeWord ascii_lower (js ''hapy''))
        (normalizeWord ascii_lower (js ''happy'')) \<le> 1
   \<and> wordMatchType ascii_lower (js ''hapy'') (js ''happy'') = Near"
  using wordMatchType_classification [of ascii_lower "js ''hapy''" "js ''happy''"]
  by (simp add: Let_def string_eval levenshtein_rec)

section \<open>Alignment\<close>

lemma bt_step_user:
  assumes "i > 0 \<or> j > 0" "bt_step uw cw mt dp i j = (it, i', j')" "i \<le> length uw"
  shows "i' \<le> length uw \<and> take i' uw @ List.map_filter userWord [it] = take i uw"
proof -
  have "0 < i \<Longrightarrow> take (i - 1) uw @ [uw ! (i - 1)] = take i uw"
    using assms(3) by (cases i) (simp_all add: take_Suc_conv_app_nth)
  then show ?thesis
    using assms by (auto simp: bt_step_def via_match_def split: if_splits)
qed

lemma bt_step_correct:
  assumes "i > 0 \<or> j > 0" "bt_step uw cw mt dp i j = (it, i', j')" "j \<le> length cw"
  shows "j' \<le> length cw \<and> take j' cw @ List.map_filter correctWord [it] = take j cw"
proof -
  have "0 < j \<Longrightarrow> take (j - 1) cw @ [cw ! (j - 1)] = take j cw"
    using assms(3) by (cases j) (simp_all add: take_Suc_conv_app_nth)
  then show ?thesis
    using assms by (auto simp: bt_step_def via_match_def split: if_splits)
qed

lemma bt_step_wf:
  assumes "bt_step uw cw mt dp i j = (it, i', j')" "i \<le> length uw" "j \<le> length cw"
    "mt_ok uw cw mt"
  shows "wf_item it"
proof (cases "via_match mt dp i j")
  case True
  then have "i - 1 < length uw" "j - 1 < length cw" "mt ! (i - 1) ! (j - 1) \<noteq> Wrong"
    using assms(2,3) by (auto simp: via_match_def)
  then have "mt ! (i - 1) ! (j - 1) = Exact \<or> mt ! (i - 1) ! (j - 1) = Near"
    using assms(4) unfolding mt_ok_def by blast
  then show ?thesis
    using True assms(1) by (auto simp: bt_step_def wf_item_def)
next
  case False
  then show ?thesis
    using assms(1) by (auto simp: bt_step_def wf_item_def split: if_splits)
qed

lemma bt_step_bounds:
  assumes "bt_step uw cw mt dp i j = (it, i', j')"
  shows "i' \<le> i \<and> j' \<le> j"
  using assms by (auto simp: bt_step_def split: if_splits)

lemma map_filter_Cons_app: "List.map_filter f (x # xs) = List.map_filter f [x] @ List.map_filter f xs"
  by (simp split: option.split)

lemma backtrack_user:
  "i \<le> length uw \<Longrightarrow>
   List.map_filter userWord (backtrack uw cw mt dp i j acc) = take i uw @ List.map_filter userWord acc"
proof (induction uw cw mt dp i j acc rule: backtrack.induct)
  case (1 uw cw mt dp i j acc)
  show ?case
  proof (cases "i > 0 \<or> j > 0")
    case False
    then show ?thesis by (subst backtrack.simps) simp
  next
    case True
    obtain it i' j' where st: "bt_step uw cw mt dp i j = (it, i', j')"
      by (cases "bt_step uw cw mt dp i j") auto
    have u: "i' \<le> length uw" "take i' uw @ List.map_filter userWord [it] = take i uw"
      using bt_step_user [OF True st "1.prems"] by auto
    have "List.map_filter userWord (backtrack uw cw mt dp i' j' (it # acc))
        = take i' uw @ List.map_filter userWord (it # acc)"
      using "1.IH" [OF True st [symmetric] refl u(1)] .
    also have "\<dots> = take i uw @ List.map_filter userWord acc"
      using u(2) by (subst map_filter_Cons_app) (simp only: append_assoc [symmetric])
    finally show ?thesis
      using True st by (simp add: backtrack.simps [of uw cw mt dp i j acc])
  qed
qed

lemma backtrack_correct:
  "j \<le> length cw \<Longrightarrow>
   List.map_filter correctWord (backtrack uw cw mt dp i j acc)
     = take j cw @ List.map_filter correctWord acc"
proof (induction uw cw mt dp i j acc rule: backtrack.induct)
  case (1 uw cw mt dp i j acc)
  show ?case
  proof (cases "i > 0 \<or> j > 0")
    case False
    then show ?thesis by (subst backtrack.simps) simp
  next
    case True
    obtain it i' j' where st: "bt_step uw cw mt dp i j = (it, i', j')"
      by (cases "bt_step uw cw mt dp i j") auto
    have u: "j' \<le> length cw" "take j' cw @ List.map_filter correctWord [it] = take j cw"
      using bt_step_correct [OF True st "1.prems"] by auto
    have "List.map_filter correctWord (backtrack uw cw mt dp i' j' (it # acc))
        = take j' cw @ List.map_filter correctWord (it # acc)"
      using "1.IH" [OF True st [symmetric] refl u(1)] .
    also have "\<dots> = take j cw @ List.map_filter correctWord acc"
      using u(2) by (subst map_filter_Cons_app) (simp only: append_assoc [symmetric])
    finally show ?thesis
      using True st by (simp add: backtrack.simps [of uw cw mt dp i j acc])
  qed
qed

lemma backtrack_wf:
  "\<forall>it \<in> set acc. wf_item it \<Longrightarrow> i \<le> length uw \<Longrightarrow> j \<le> length cw \<Longrightarrow> mt_ok uw cw mt \<Longrightarrow>
   \<forall>it \<in> set (backtrack uw cw mt dp i j acc). wf_item it"
proof (induction uw cw mt dp i j acc rule: backtrack.induct)
  case (1 uw cw mt dp i j acc)
  show ?case
  proof (cases "i > 0 \<or> j > 0")
    case False
    then show ?thesis using "1.prems"(1) by (subst backtrack.simps) simp
  next
    case True
    obtain it i' j' where st: "bt_step uw cw mt dp i j = (it, i', j')"
      by (cases "bt_step uw cw mt dp i j") auto
    have "\<forall>x \<in> set (it # acc). wf_item x"
      using "1.prems" bt_step_wf [OF st] by simp
    moreover have "i' \<le> length uw" "j' \<le> length cw"
      using bt_step_bounds [OF st] "1.prems"(2,3) by auto
    ultimately have "\<forall>x \<in> set (backtrack uw cw mt dp i' j' (it # acc)). wf_item x"
      using "1.IH" [OF True st [symmetric] refl] "1.prems"(4) by blast
    then show ?thesis
      using True st by (simp add: backtrack.simps [of uw cw mt dp i j acc])
  qed
qed

lemma mt_table_ok: "mt_ok uw cw (mt_table lc uw cw)"
  unfolding mt_ok_def using wordMatchType_cases by (simp add: mt_table_nth)

text \<open>
  C3. \<open>lcsAlign\<close> is total (the backtrack loop terminates, by the termination proof of
  \<open>backtrack\<close>) and for any two word arrays, empty ones too, the user words of its items
  that have one are the user array in order, the reference words of its items that have
  one are the reference array in order, a \<open>missing\<close> item has no user word and has a
  reference word, an \<open>extra\<close> item has no reference word and has a user word, and an
  \<open>exact\<close> or \<open>near\<close> item has both.
\<close>

theorem lcsAlign_shape:
  "List.map_filter userWord (lcsAlign lc uw cw) = uw
   \<and> List.map_filter correctWord (lcsAlign lc uw cw) = cw
   \<and> (\<forall>it \<in> set (lcsAlign lc uw cw).
        (type it = Missing \<longrightarrow> userWord it = None \<and> correctWord it \<noteq> None)
      \<and> (type it = Extra \<longrightarrow> correctWord it = None \<and> userWord it \<noteq> None)
      \<and> (type it \<in> {Exact, Near} \<longrightarrow> userWord it \<noteq> None \<and> correctWord it \<noteq> None))"
proof -
  let ?mt = "mt_table lc uw cw"
  let ?dp = "lcs_table ?mt (length uw) (length cw)"
  have al: "lcsAlign lc uw cw = backtrack uw cw ?mt ?dp (length uw) (length cw) []"
    by (simp add: lcsAlign_def Let_def)
  have "List.map_filter userWord (lcsAlign lc uw cw) = uw"
    unfolding al by (subst backtrack_user) simp_all
  moreover have "List.map_filter correctWord (lcsAlign lc uw cw) = cw"
    unfolding al by (subst backtrack_correct) simp_all
  moreover have "\<forall>it \<in> set (lcsAlign lc uw cw). wf_item it"
    unfolding al by (rule backtrack_wf) (simp_all add: mt_table_ok)
  ultimately show ?thesis
    unfolding wf_item_def by blast
qed

text \<open>The tables and the alignment of one word against itself and against another.\<close>

lemma mt_table_a_a: "mt_table ascii_lower [js ''a''] [js ''a''] = [[Exact]]"
  by (simp add: mt_table_def set2_def wordMatchType_def Let_def string_eval)

lemma lcs_table_a_a: "lcs_table [[Exact]] (Suc 0) (Suc 0) = [[0, 0], [0, 1]]"
  by (simp add: lcs_table_def lcs_cell_def set2_def)

lemma lcsAlign_a_a:
  "lcsAlign ascii_lower [js ''a''] [js ''a''] =
     [\<lparr>type = Exact, userWord = Some (js ''a''), correctWord = Some (js ''a'')\<rparr>]"
  by (simp add: lcsAlign_def Let_def mt_table_a_a lcs_table_a_a backtrack.simps bt_step_def
      via_match_def)

lemma mt_table_x_a: "mt_table ascii_lower [js ''x''] [js ''a''] = [[Wrong]]"
  by (simp add: mt_table_def set2_def wordMatchType_def Let_def string_eval)

lemma lcs_table_x_a: "lcs_table [[Wrong]] (Suc 0) (Suc 0) = [[0, 0], [0, 0]]"
  by (simp add: lcs_table_def lcs_cell_def set2_def)

lemma lcsAlign_x_a:
  "lcsAlign ascii_lower [js ''x''] [js ''a''] =
     [\<lparr>type = Extra, userWord = Some (js ''x''), correctWord = None\<rparr>,
      \<lparr>type = Missing, userWord = None, correctWord = Some (js ''a'')\<rparr>]"
  by (simp add: lcsAlign_def Let_def mt_table_x_a lcs_table_x_a backtrack.simps bt_step_def
      via_match_def)

theorem lcsAlign_shape_witness:
  "\<lparr>type = Exact, userWord = Some (js ''a''), correctWord = Some (js ''a'')\<rparr>
      \<in> set (lcsAlign ascii_lower [js ''a''] [js ''a''])
   \<and> List.map_filter userWord (lcsAlign ascii_lower [js ''a''] [js ''a'']) = [js ''a'']
   \<and> List.map_filter correctWord (lcsAlign ascii_lower [js ''a''] [js ''a'']) = [js ''a'']"
  using lcsAlign_shape [of ascii_lower "[js ''a'']" "[js ''a'']"]
  by (simp add: lcsAlign_a_a)

text \<open>
  C4. At a turn of the backtrack loop at \<open>(i, j)\<close> with the tables \<open>lcsAlign\<close> built: if
  the first branch is not taken, a user word and a reference word remain, and
  \<open>dp[i][j-1] \<ge> dp[i-1][j]\<close>, the turn emits a \<open>missing\<close> item and consumes the reference
  word; a turn emits an \<open>extra\<close> item only through the last branch, consuming a user word,
  and then \<open>i > 0\<close> and either \<open>j = 0\<close> or \<open>dp[i][j-1] < dp[i-1][j]\<close>.
\<close>

theorem backtrack_tie_break:
  "let mt = mt_table lc uw cw; dp = lcs_table mt (length uw) (length cw)
   in \<forall>i j. i \<le> length uw \<and> j \<le> length cw \<longrightarrow>
        (i > 0 \<and> j > 0 \<and> \<not> via_match mt dp i j \<and> dp ! i ! (j - 1) \<ge> dp ! (i - 1) ! j \<longrightarrow>
           bt_step uw cw mt dp i j =
             (\<lparr>type = Missing, userWord = None, correctWord = Some (cw ! (j - 1))\<rparr>, i, j - 1))
      \<and> ((i > 0 \<or> j > 0) \<and> type (fst (bt_step uw cw mt dp i j)) = Extra \<longrightarrow>
           bt_step uw cw mt dp i j =
             (\<lparr>type = Extra, userWord = Some (uw ! (i - 1)), correctWord = None\<rparr>, i - 1, j)
           \<and> i > 0 \<and> (j = 0 \<or> dp ! i ! (j - 1) < dp ! (i - 1) ! j))"
proof -
  have m: "mt_table lc uw cw ! (i - 1) ! (j - 1) \<noteq> Extra"
    if "0 < i" "i \<le> length uw" "0 < j" "j \<le> length cw" for i j
    using that wordMatchType_cases [of lc "uw ! (i - 1)" "cw ! (j - 1)"]
    by (subst mt_table_nth) auto
  show ?thesis
    unfolding Let_def
  proof (intro allI impI conjI)
    fix i j
    assume "i \<le> length uw \<and> j \<le> length cw"
      and "0 < i \<and> 0 < j \<and> \<not> via_match (mt_table lc uw cw)
              (lcs_table (mt_table lc uw cw) (length uw) (length cw)) i j
            \<and> lcs_table (mt_table lc uw cw) (length uw) (length cw) ! (i - 1) ! j
               \<le> lcs_table (mt_table lc uw cw) (length uw) (length cw) ! i ! (j - 1)"
    then show "bt_step uw cw (mt_table lc uw cw)
           (lcs_table (mt_table lc uw cw) (length uw) (length cw)) i j =
          (\<lparr>type = Missing, userWord = None, correctWord = Some (cw ! (j - 1))\<rparr>, i, j - 1)"
      by (simp add: bt_step_def)
  next
    fix i j
    assume b: "i \<le> length uw \<and> j \<le> length cw"
      and e: "(0 < i \<or> 0 < j) \<and> type (fst (bt_step uw cw (mt_table lc uw cw)
           (lcs_table (mt_table lc uw cw) (length uw) (length cw)) i j)) = Extra"
    have nm: "\<not> via_match (mt_table lc uw cw)
           (lcs_table (mt_table lc uw cw) (length uw) (length cw)) i j"
    proof
      assume v: "via_match (mt_table lc uw cw)
           (lcs_table (mt_table lc uw cw) (length uw) (length cw)) i j"
      then have "0 < i" "0 < j" by (auto simp: via_match_def)
      with b have "mt_table lc uw cw ! (i - 1) ! (j - 1) \<noteq> Extra"
        by (intro m) auto
      with e v show False by (simp add: bt_step_def)
    qed
    with e show "bt_step uw cw (mt_table lc uw cw)
           (lcs_table (mt_table lc uw cw) (length uw) (length cw)) i j =
          (\<lparr>type = Extra, userWord = Some (uw ! (i - 1)), correctWord = None\<rparr>, i - 1, j)"
      by (auto simp: bt_step_def split: if_splits)
    from nm e show "0 < i"
      by (auto simp: bt_step_def split: if_splits)
    from nm e show "j = 0 \<or> lcs_table (mt_table lc uw cw) (length uw) (length cw) ! i ! (j - 1)
         < lcs_table (mt_table lc uw cw) (length uw) (length cw) ! (i - 1) ! j"
      by (auto simp: bt_step_def split: if_splits)
  qed
qed

theorem backtrack_tie_break_witness:
  "\<not> via_match [[Wrong]] [[0, 0], [0, 0]] 1 1
   \<and> bt_step [js ''x''] [js ''a''] [[Wrong]] [[0, 0], [0, 0]] 1 1 =
        (\<lparr>type = Missing, userWord = None, correctWord = Some (js ''a'')\<rparr>, 1, 0)
   \<and> bt_step [js ''x''] [js ''a''] [[Wrong]] [[0, 0], [0, 0]] 1 0 =
        (\<lparr>type = Extra, userWord = Some (js ''x''), correctWord = None\<rparr>, 0, 0)"
  using backtrack_tie_break [of ascii_lower "[js ''x'']" "[js ''a'']"]
  by (simp add: Let_def mt_table_x_a lcs_table_x_a via_match_def bt_step_def)

section \<open>Checking an answer\<close>

text \<open>The two outcomes of a scored answer.\<close>

lemma checkAnswer_scored:
  assumes "\<not> isChecked s" "trim (userInput s) \<noteq> []" "currentIndex s < length (segments s)"
  shows "checkAnswer lc s =
     (let userText = trim (userInput s);
          seg = segments s ! currentIndex s;
          cWords = words_of (trim (correct_text seg));
          alignment = lcsAlign lc (words_of userText) cWords;
          isExactCorrect =
            (normalizeForCompare lc userText = normalizeForCompare lc (correct_text seg));
          isNearCorrect = (count_type Missing alignment = 0 \<and> count_type Extra alignment = 0
              \<and> count_type Near alignment > 0)
      in if isExactCorrect \<or> isNearCorrect then
           Inr (s\<lparr>isChecked := True, correctCount := correctCount s + 1,
                  feedbackHidden := False,
                  feedbackContent :=
                    (if isExactCorrect then ExactlyCorrect
                     else NearlyCorrect (count_type Near alignment)),
                  inputDisabled := True, btnCheckHidden := True,
                  btnReveal := map_option (\<lambda>_. True) (btnReveal s),
                  btnNextHidden := False\<rparr>)
         else
           Inr (s\<lparr>attempts := attempts s + 1,
                  feedbackHidden := False,
                  feedbackContent :=
                    Incorrect (count_type Exact alignment + count_type Near alignment) (length cWords),
                  inputDisabled := False,
                  btnReveal :=
                    (if attempts s + 1 \<ge> MAX_ATTEMPTS
                     then map_option (\<lambda>_. False) (btnReveal s) else btnReveal s)\<rparr>))"
  using assms by (simp add: checkAnswer_def Let_def)

text \<open>
  C1. For a segment that is not yet checked (\<open>checkAnswer\<close> returns at once on a checked
  one) and an answer that is non-empty after trimming, \<open>checkAnswer\<close> accepts exactly when
  the normalized answer equals the normalized reference or the alignment of the answer's
  words against the reference's words has no \<open>missing\<close>, no \<open>extra\<close> and at least one
  \<open>near\<close> item. On acceptance \<open>isChecked\<close> becomes true and \<open>correctCount\<close> grows by one;
  otherwise neither changes and the score shown is the count of \<open>exact\<close> and \<open>near\<close> items
  over the number of reference words.
\<close>

theorem checkAnswer_decision:
  assumes "\<not> isChecked s" "currentIndex s < length (segments s)" "trim (userInput s) \<noteq> []"
  shows "let userText = trim (userInput s);
             seg = segments s ! currentIndex s;
             cWords = words_of (trim (correct_text seg));
             alignment = lcsAlign lc (words_of userText) cWords;
             accepted =
               (normalizeForCompare lc userText = normalizeForCompare lc (correct_text seg)
                \<or> (count_type Missing alignment = 0 \<and> count_type Extra alignment = 0
                    \<and> count_type Near alignment \<ge> 1))
         in \<exists>s'. checkAnswer lc s = Inr s'
              \<and> (accepted \<longrightarrow> isChecked s' \<and> correctCount s' = correctCount s + 1)
              \<and> (\<not> accepted \<longrightarrow> \<not> isChecked s' \<and> correctCount s' = correctCount s
                    \<and> feedbackContent s' =
                        Incorrect (count_type Exact alignment + count_type Near alignment)
                          (length cWords))"
  using assms by (auto simp: checkAnswer_scored Let_def Suc_le_eq)

theorem checkAnswer_decision_witness:
  "\<not> isChecked ((started [js ''The cat.''])\<lparr>userInput := js '' the  CAT ''\<rparr>)
   \<and> trim (js '' the  CAT '') \<noteq> []
   \<and> (\<exists>s'. checkAnswer ascii_lower ((started [js ''The cat.''])\<lparr>userInput := js '' the  CAT ''\<rparr>)
            = Inr s' \<and> isChecked s' \<and> correctCount s' = 1)"
proof -
  let ?s = "(started [js ''The cat.''])\<lparr>userInput := js '' the  CAT ''\<rparr>"
  have f: "\<not> isChecked ?s" "currentIndex ?s < length (segments ?s)" "correctCount ?s = 0"
    by (simp_all add: started_def render_def DictationMode_def page_def initial_index_def)
  have g: "correct_text (segments ?s ! currentIndex ?s) = js ''The cat.''"
    by (simp add: started_def render_def DictationMode_def page_def initial_index_def
        segment_of_def)
  have t: "trim (userInput ?s) \<noteq> []" "trim (js '' the  CAT '') \<noteq> []"
    by (simp_all add: string_eval)
  have n: "normalizeForCompare ascii_lower (trim (userInput ?s))
      = normalizeForCompare ascii_lower (correct_text (segments ?s ! currentIndex ?s))"
    unfolding g by (simp add: normalizeForCompare_def string_eval)
  from checkAnswer_decision [OF f(1,2) t(1), of ascii_lower]
  obtain s' where "checkAnswer ascii_lower ?s = Inr s'" "isChecked s'"
    "correctCount s' = correctCount ?s + 1"
    unfolding Let_def using n by blast
  then show ?thesis
    using f t by auto
qed

text \<open>
  C6. When the input trims to the empty string, \<open>checkAnswer\<close> returns before it reads the
  segment or aligns anything (the result does not depend on the segments, and an index
  past them does not throw), and \<open>attempts\<close>, \<open>correctCount\<close>, \<open>isChecked\<close>,
  \<open>currentIndex\<close> and the reveal button are as before the call.
\<close>

theorem checkAnswer_empty_input:
  assumes "trim (userInput s) = []"
  shows "checkAnswer lc s =
           Inr (if isChecked s then s
                else s\<lparr>feedbackHidden := False, feedbackContent := EnterAnAnswer\<rparr>)
         \<and> (\<exists>s'. checkAnswer lc s = Inr s'
               \<and> attempts s' = attempts s \<and> correctCount s' = correctCount s
               \<and> isChecked s' = isChecked s \<and> currentIndex s' = currentIndex s
               \<and> btnReveal s' = btnReveal s)"
  using assms by (auto simp: checkAnswer_def)

lemma started_fields:
  "\<not> isChecked (started [js ''a''])" "segments (started [js ''a'']) = [segment_of (js ''a'')]"
  "currentIndex (started [js ''a'']) = 0" "attempts (started [js ''a'']) = 0"
  "btnReveal (started [js ''a'']) = Some True"
  "\<not> isChecked (started [js ''a'', js ''a''])"
  "segments (started [js ''a'', js ''a'']) = [segment_of (js ''a''), segment_of (js ''a'')]"
  "currentIndex (started [js ''a'', js ''a'']) = 0" "attempts (started [js ''a'', js ''a'']) = 0"
  "btnReveal (started [js ''a'', js ''a'']) = Some True"
  "correctCount (started [js ''a'', js ''a'']) = 0"
  by (simp_all add: started_def render_def DictationMode_def page_def initial_index_def)

theorem checkAnswer_empty_input_witness:
  "trim (js ''  '') = []
   \<and> checkAnswer ascii_lower ((started [js ''a''])\<lparr>userInput := js ''  ''\<rparr>)
      = Inr ((started [js ''a''])\<lparr>userInput := js ''  '', feedbackHidden := False,
              feedbackContent := EnterAnAnswer\<rparr>)"
proof -
  have t: "trim (js ''  '') = []"
    by (simp add: string_eval)
  from checkAnswer_empty_input [of "(started [js ''a''])\<lparr>userInput := js ''  ''\<rparr>" ascii_lower] t
  show ?thesis
    by (simp add: started_fields)
qed

section \<open>Revealing after three incorrect answers\<close>

lemma incorrect_step:
  assumes "\<not> isChecked s" "submit lc t s = Inr s'" "feedbackContent s' = Incorrect a b"
  shows "\<not> isChecked s' \<and> attempts s' = attempts s + 1 \<and> correctCount s' = correctCount s
     \<and> currentIndex s' = currentIndex s \<and> segments s' = segments s
     \<and> currentIndex s < length (segments s)
     \<and> btnReveal s' = (if attempts s + 1 \<ge> MAX_ATTEMPTS
                        then map_option (\<lambda>_. False) (btnReveal s) else btnReveal s)"
  using assms by (auto simp: submit_def checkAnswer_def Let_def split: if_splits)

text \<open>
  C7, amended. From a fresh segment (\<open>attempts = 0\<close>, not checked), after three
  \<open>checkAnswer\<close> calls whose outcome is incorrect, \<open>attempts\<close> is \<open>MAX_ATTEMPTS = 3\<close>;
  \<open>revealAnswer\<close> sets \<open>isChecked\<close> and leaves \<open>correctCount\<close> and \<open>currentIndex\<close> as they
  were; \<open>nextSegment\<close> then adds one to \<open>currentIndex\<close>, and its \<open>render\<close> resets \<open>attempts\<close>
  to 0 and \<open>isChecked\<close> to false when a segment is left; after the last segment it
  shows the summary and resets neither.
\<close>

theorem reveal_after_three_incorrect:
  assumes "\<not> isChecked s" "attempts s = 0"
    and "submit lc t1 s = Inr s1" "feedbackContent s1 = Incorrect a1 b1"
    and "submit lc t2 s1 = Inr s2" "feedbackContent s2 = Incorrect a2 b2"
    and "submit lc t3 s2 = Inr s3" "feedbackContent s3 = Incorrect a3 b3"
  shows "attempts s3 = MAX_ATTEMPTS \<and> MAX_ATTEMPTS = 3
     \<and> (\<exists>s4. revealAnswer s3 = Inr s4
          \<and> isChecked s4 \<and> correctCount s4 = correctCount s \<and> currentIndex s4 = currentIndex s
          \<and> currentIndex (nextSegment s4) = currentIndex s + 1
          \<and> (if currentIndex s + 1 < length (segments s)
              then attempts (nextSegment s4) = 0 \<and> \<not> isChecked (nextSegment s4)
              else summaryShown (nextSegment s4) \<and> attempts (nextSegment s4) = attempts s4
                   \<and> isChecked (nextSegment s4)))"
proof -
  note i1 = incorrect_step [OF assms(1) assms(3,4)]
  note i2 = incorrect_step [OF _ assms(5,6)]
  note i3 = incorrect_step [OF _ assms(7,8)]
  have f1: "\<not> isChecked s1" "attempts s1 = 1" "correctCount s1 = correctCount s"
    "currentIndex s1 = currentIndex s" "segments s1 = segments s"
    using i1 assms(2) by auto
  have f2: "\<not> isChecked s2" "attempts s2 = 2" "correctCount s2 = correctCount s"
    "currentIndex s2 = currentIndex s" "segments s2 = segments s"
    using i2 [OF f1(1)] f1 by auto
  have f3: "\<not> isChecked s3" "attempts s3 = 3" "correctCount s3 = correctCount s"
    "currentIndex s3 = currentIndex s" "segments s3 = segments s"
    "currentIndex s3 < length (segments s3)"
    using i3 [OF f2(1)] f2 by auto
  show ?thesis
    using f3 by (simp add: MAX_ATTEMPTS_def revealAnswer_def nextSegment_def render_def
        showSummary_def Let_def)
qed

text \<open>Scoring \<open>x\<close> against the segment \<open>a\<close>: an extra and a missing word.\<close>

lemma words_of_x: "words_of (js ''x'') = [js ''x'']" "words_of (js ''a'') = [js ''a'']"
  by (simp_all add: words_of_def split_ws.simps string_eval)

lemma submit_x_a:
  assumes "\<not> isChecked s" "segments s ! currentIndex s = segment_of (js ''a'')"
    "currentIndex s < length (segments s)"
  shows "submit ascii_lower (js ''x'') s = Inr (wrong_x s)"
proof -
  have t: "trim (js ''x'') = js ''x''" "trim (js ''a'') = js ''a''" "js ''x'' \<noteq> []"
    by (simp_all add: string_eval)
  have n: "normalizeForCompare ascii_lower (js ''x'') \<noteq> normalizeForCompare ascii_lower (js ''a'')"
    by (simp add: normalizeForCompare_def string_eval)
  show ?thesis
    unfolding submit_def wrong_x_def
    by (subst checkAnswer_scored)
      (use assms n in \<open>simp_all add: t Let_def words_of_x lcsAlign_x_a count_type_def segment_of_def\<close>)
qed


lemma revealAnswer_revealed:
  "currentIndex s < length (segments s) \<Longrightarrow> revealAnswer s = Inr (revealed s)"
  by (simp add: revealAnswer_def revealed_def Let_def)

lemma wrong_x_fields [simp]:
  "isChecked (wrong_x s) = isChecked s" "segments (wrong_x s) = segments s"
  "currentIndex (wrong_x s) = currentIndex s" "attempts (wrong_x s) = attempts s + 1"
  "feedbackContent (wrong_x s) = Incorrect 0 1" "correctCount (wrong_x s) = correctCount s"
  by (simp_all add: wrong_x_def)

lemma revealed_fields [simp]:
  "isChecked (revealed s)" "segments (revealed s) = segments s"
  "currentIndex (revealed s) = currentIndex s" "attempts (revealed s) = attempts s"
  "correctCount (revealed s) = correctCount s"
  by (simp_all add: revealed_def)

lemma three_wrong_x:
  assumes "\<not> isChecked s" "segments s ! currentIndex s = segment_of (js ''a'')"
    "currentIndex s < length (segments s)"
  shows "submit ascii_lower (js ''x'') s = Inr (wrong_x s)"
    "submit ascii_lower (js ''x'') (wrong_x s) = Inr (wrong_x (wrong_x s))"
    "submit ascii_lower (js ''x'') (wrong_x (wrong_x s)) = Inr (wrong_x (wrong_x (wrong_x s)))"
  using assms by (simp_all add: submit_x_a)

text \<open>
  C7 as stated fails on the last segment: after three incorrect answers, the reveal and
  \<open>nextSegment\<close> on a session of one segment, \<open>attempts\<close> is still 3 and \<open>isChecked\<close> still
  true.
\<close>

theorem reveal_on_last_segment_counterexample:
  "three_checks_reveal_next ascii_lower (js ''x'') (js ''x'') (js ''x'') (started [js ''a''])
     = Inr (nextSegment (revealed (wrong_x (wrong_x (wrong_x (started [js ''a'']))))))
   \<and> attempts (nextSegment (revealed (wrong_x (wrong_x (wrong_x (started [js ''a''])))))) = 3
   \<and> isChecked (nextSegment (revealed (wrong_x (wrong_x (wrong_x (started [js ''a'']))))))"
proof -
  let ?s0 = "started [js ''a'']"
  have h: "submit ascii_lower (js ''x'') ?s0 = Inr (wrong_x ?s0)"
    "submit ascii_lower (js ''x'') (wrong_x ?s0) = Inr (wrong_x (wrong_x ?s0))"
    "submit ascii_lower (js ''x'') (wrong_x (wrong_x ?s0)) = Inr (wrong_x (wrong_x (wrong_x ?s0)))"
    by (simp_all add: three_wrong_x started_fields)
  have r: "revealAnswer (wrong_x (wrong_x (wrong_x ?s0)))
      = Inr (revealed (wrong_x (wrong_x (wrong_x ?s0))))"
    by (rule revealAnswer_revealed) (simp add: started_fields)
  have "three_checks_reveal_next ascii_lower (js ''x'') (js ''x'') (js ''x'') ?s0
     = Inr (nextSegment (revealed (wrong_x (wrong_x (wrong_x ?s0)))))"
    unfolding three_checks_reveal_next_def by (simp add: and_then_def h r)
  moreover have "attempts (nextSegment (revealed (wrong_x (wrong_x (wrong_x ?s0))))) = 3"
    "isChecked (nextSegment (revealed (wrong_x (wrong_x (wrong_x ?s0)))))"
    by (simp_all add: nextSegment_def render_def showSummary_def started_fields)
  ultimately show ?thesis by simp
qed

theorem reveal_after_three_incorrect_witness:
  "submit ascii_lower (js ''x'') (started [js ''a'', js ''a''])
     = Inr (wrong_x (started [js ''a'', js ''a'']))
   \<and> feedbackContent (wrong_x (started [js ''a'', js ''a''])) = Incorrect 0 1
   \<and> attempts (wrong_x (wrong_x (wrong_x (started [js ''a'', js ''a''])))) = 3
   \<and> attempts (nextSegment (revealed (wrong_x (wrong_x (wrong_x (started [js ''a'', js ''a'']))))))
       = 0
   \<and> \<not> isChecked
         (nextSegment (revealed (wrong_x (wrong_x (wrong_x (started [js ''a'', js ''a'']))))))"
proof -
  let ?s0 = "started [js ''a'', js ''a'']"
  have h: "submit ascii_lower (js ''x'') ?s0 = Inr (wrong_x ?s0)"
    "submit ascii_lower (js ''x'') (wrong_x ?s0) = Inr (wrong_x (wrong_x ?s0))"
    "submit ascii_lower (js ''x'') (wrong_x (wrong_x ?s0)) = Inr (wrong_x (wrong_x (wrong_x ?s0)))"
    by (simp_all add: three_wrong_x started_fields)
  have r: "revealAnswer (wrong_x (wrong_x (wrong_x ?s0)))
      = Inr (revealed (wrong_x (wrong_x (wrong_x ?s0))))"
    by (rule revealAnswer_revealed) (simp add: started_fields)
  from reveal_after_three_incorrect [of ?s0 ascii_lower "js ''x''" "wrong_x ?s0" 0 1
      "js ''x''" "wrong_x (wrong_x ?s0)" 0 1 "js ''x''" "wrong_x (wrong_x (wrong_x ?s0))" 0 1]
  show ?thesis
    using h r by (simp add: started_fields MAX_ATTEMPTS_def)
qed

section \<open>The constructor\<close>

text \<open>
  C10. The constructor sets \<open>currentIndex\<close> to \<open>max(0, min(initialIndex, length - 1))\<close>,
  with 0 for an absent \<open>initialIndex\<close> and 0 for no segments; with at least one segment
  \<open>currentIndex\<close> is below the number of segments, so the session does not begin in the
  terminal state.
\<close>

theorem constructor_index:
  "int (currentIndex (DictationMode segs elements initialIndex)) =
     max 0 (min (case initialIndex of None \<Rightarrow> 0 | Some v \<Rightarrow> v) (int (length segs) - 1))
   \<and> (initialIndex = None \<longrightarrow> currentIndex (DictationMode segs elements initialIndex) = 0)
   \<and> (segs = [] \<longrightarrow> currentIndex (DictationMode segs elements initialIndex) = 0)
   \<and> (segs \<noteq> [] \<longrightarrow> currentIndex (DictationMode segs elements initialIndex) < length segs)"
  by (cases segs) (auto simp: DictationMode_def initial_index_def split: option.splits)


theorem constructor_index_witness:
  "[segment_of (js ''a''), segment_of (js ''b'')] \<noteq> []
   \<and> currentIndex (DictationMode [segment_of (js ''a''), segment_of (js ''b'')] page (Some 7)) = 1
   \<and> currentIndex (DictationMode [segment_of (js ''a''), segment_of (js ''b'')] page (Some 7))
        < length [segment_of (js ''a''), segment_of (js ''b'')]"
  using constructor_index [of "[segment_of (js ''a''), segment_of (js ''b'')]" page "Some 7"]
  by simp

section \<open>Loading the segments: no check of the times\<close>

text \<open>
  C8, amended. At load time a segment is left out on account of its type only (a
  non-empty type other than \<open>content\<close>); the times play no part in the filter, and every
  segment kept is in the session's list with its times as parsed, whether or not
  \<open>0 \<le> start_time < end_time\<close>.
\<close>

theorem load_filters_by_type_only:
  "map (\<lambda>g. (start_time g, end_time g)) (load_segments lc rawSegments) =
     map (\<lambda>r. (parse_time (raw_start_time r) (raw_start r),
                parse_time (raw_end_time r) (raw_end r)))
       (filter (keeps lc) rawSegments)
   \<and> keeps lc (r\<lparr>raw_start_time := a, raw_start := b, raw_end_time := c, raw_end := d\<rparr>)
       = keeps lc r"
proof -
  have "map (\<lambda>g. (start_time g, end_time g))
          (map (\<lambda>(s, idx). normalize_segment s idx) (zip xs [k..<k + length xs])) =
        map (\<lambda>r. (parse_time (raw_start_time r) (raw_start r),
                   parse_time (raw_end_time r) (raw_end r))) xs" for xs k
  proof (induction xs arbitrary: k)
    case Nil
    then show ?case by simp
  next
    case (Cons x xs)
    have "[k..<k + length (x # xs)] = k # [Suc k..<Suc k + length xs]"
      by (subst upt_conv_Cons) simp_all
    then show ?case
      using Cons [of "Suc k"] by (simp add: normalize_segment_def)
  qed
  from this [of "filter (keeps lc) rawSegments" 0] show ?thesis
    by (simp add: load_segments_def Let_def keeps_def)
qed

theorem load_filters_by_type_only_witness:
  "map (\<lambda>g. (start_time g, end_time g)) (load_segments ascii_lower [backwards]) = [(5, 3)]"
  using load_filters_by_type_only [of ascii_lower "[backwards]"]
  by (simp add: keeps_def backwards_def ascii_lower_def parse_time_def)

text \<open>
  C8 as stated fails: a segment from 5 s to 3 s is loaded and is the session's one
  segment.
\<close>

theorem load_keeps_malformed_counterexample:
  "load_segments ascii_lower [backwards] =
     [\<lparr>start_time = 5, end_time = 3, correct_text = js ''hello'', hint = [], order = 1\<rparr>]
   \<and> malformed \<lparr>start_time = 5, end_time = 3, correct_text = js ''hello'', hint = [], order = 1\<rparr>"
  by (simp add: load_segments_def keeps_def backwards_def ascii_lower_def normalize_segment_def
      parse_time_def malformed_def Let_def)

section \<open>Playback requests: the interval of a stopped request\<close>

lemmas seeker_eval =
  seekAndPlay_def seekAndPlayInternal_def checkAudioReady_def idle_def ready_audio_def
  run_def fire_seeked_def onSeeked_def startPlayback_def playThenSeek_def resolve_play_def
  fire_timer_def checkEnd_def poll_def drop_nth_def browser_sets_def stop_def js_def Let_def

text \<open>
  C9, which the code does not keep. Request 0 plays from 10 s to 13 s and has started;
  the playback is stopped and request 1 is issued, for 20 s to 23 s. The end-time
  interval of request 0 is still pending: \<open>stop\<close> and \<open>playCurrentSegment\<close> clear
  \<open>this.checkInterval\<close>, which is never assigned, while the interval's handle is a local
  of \<open>startPlayback\<close>. As soon as request 1 plays, that interval finds the position past
  13 s, pauses the audio and calls the \<open>onEnd\<close> of request 0. And when request 1 is issued
  before request 0 has started, for the same segment, both \<open>onPlay\<close> callbacks run and so
  does the \<open>onEnd\<close> of request 0.
\<close>

theorem stale_interval_ends_next_request:
  "log (run [Seeked, PlayFulfilled 0, TimerDue 1]
         (seekAndPlay 20 23 False
           (stop (run [Seeked, PlayFulfilled 0] (seekAndPlay 10 13 False idle)))))
     = [Started 0, Started 1, Ended 0]
   \<and> paused (audio (run [Seeked, PlayFulfilled 0, TimerDue 1]
         (seekAndPlay 20 23 False
           (stop (run [Seeked, PlayFulfilled 0] (seekAndPlay 10 13 False idle))))))
   \<and> log (run [Seeked, PlayFulfilled 0, PlayFulfilled 0,
             Element (ready_audio\<lparr>currentTime := 13, paused := False\<rparr>), TimerDue 2]
         (seekAndPlay 10 13 False (seekAndPlay 10 13 False idle)))
     = [Started 0, Started 1, Ended 0]"
  by (simp add: seeker_eval)

end
